theory Spec2Isabelle
  imports Complex_Main
begin

section \<open>Python strings\<close>

text \<open>
  A Python \<^verbatim>\<open>str\<close> is a sequence of code points. It is modelled as a \<^typ>\<open>string\<close>,
  every \<^typ>\<open>char\<close> standing for the code point of the same number (0 to 255): the model
  covers texts whose code points are below 256, and \<^const>\<open>length\<close> counts code points as
  \<^verbatim>\<open>len\<close> does. Python floats are modelled as exact \<^typ>\<open>real\<close> numbers (no rounding),
  Python's non-negative counts as \<^typ>\<open>nat\<close>.
\<close>

text \<open>The line boundaries of \<^verbatim>\<open>str.splitlines\<close> among the code points below 256.\<close>

definition is_linebreak :: "char \<Rightarrow> bool" where
  "is_linebreak c \<longleftrightarrow>
     c \<in> set [CHR 0x0A, CHR 0x0B, CHR 0x0C, CHR 0x0D, CHR 0x1C, CHR 0x1D, CHR 0x1E, CHR 0x85]"

text \<open>\<^verbatim>\<open>str.isspace\<close> on one code point below 256: what \<^verbatim>\<open>str.strip()\<close> removes.\<close>

definition isspace :: "char \<Rightarrow> bool" where
  "isspace c \<longleftrightarrow>
     c \<in> set [CHR 0x09, CHR 0x0A, CHR 0x0B, CHR 0x0C, CHR 0x0D, CHR 0x1C, CHR 0x1D, CHR 0x1E,
               CHR 0x1F, CHR 0x20, CHR 0x85, CHR 0xA0]"

text \<open>
  \<^verbatim>\<open>str.splitlines()\<close>: the lines without their line breaks; a carriage return followed by
  a line feed is one break (the carriage return is skipped and the line feed ends the line);
  a final line break opens no further line, and the empty text has no line.
\<close>

fun splitlines :: "string \<Rightarrow> string list" where
  "splitlines [] = []"
| "splitlines (c # cs) =
     (if c = CHR 0x0D \<and> cs \<noteq> [] \<and> hd cs = CHR 0x0A then splitlines cs
      else if is_linebreak c then [] # splitlines cs
      else (case splitlines cs of [] \<Rightarrow> [[c]] | l # ls \<Rightarrow> (c # l) # ls))"

text \<open>\<^verbatim>\<open>str.strip()\<close>: white space removed at both ends.\<close>

definition strip :: "string \<Rightarrow> string" where
  "strip s = rev (dropWhile isspace (rev (dropWhile isspace s)))"

text \<open>\<^verbatim>\<open>line.startswith('>')\<close>.\<close>

definition startswith_gt :: "string \<Rightarrow> bool" where
  "startswith_gt line = (case line of [] \<Rightarrow> False | c # _ \<Rightarrow> c = CHR ''>'')"

text \<open>
  \<^verbatim>\<open>str.upper()\<close> maps every code point on its own. Below 256 the lowercase letters are
  a to z, which become A to Z, the letters 0xE0 to 0xFE (0xF7, the division sign, apart), which
  become 0xC0 to 0xDE, and three more: 0xDF (sharp s) becomes the two letters SS, 0xB5 (micro
  sign) and 0xFF (y with diaeresis) become one code point above 255 each. The last two are
  left as they are here: their images are single code points and none of A, C, G, T, so every
  count and length taken below is the one Python takes.
\<close>

definition lowercase :: string where
  "lowercase = ''abcdefghijklmnopqrstuvwxyz'' @
     [CHR 0xE0, CHR 0xE1, CHR 0xE2, CHR 0xE3, CHR 0xE4, CHR 0xE5, CHR 0xE6, CHR 0xE7,
      CHR 0xE8, CHR 0xE9, CHR 0xEA, CHR 0xEB, CHR 0xEC, CHR 0xED, CHR 0xEE, CHR 0xEF,
      CHR 0xF0, CHR 0xF1, CHR 0xF2, CHR 0xF3, CHR 0xF4, CHR 0xF5, CHR 0xF6,
      CHR 0xF8, CHR 0xF9, CHR 0xFA, CHR 0xFB, CHR 0xFC, CHR 0xFD, CHR 0xFE]"

definition uppercase :: string where
  "uppercase = ''ABCDEFGHIJKLMNOPQRSTUVWXYZ'' @
     [CHR 0xC0, CHR 0xC1, CHR 0xC2, CHR 0xC3, CHR 0xC4, CHR 0xC5, CHR 0xC6, CHR 0xC7,
      CHR 0xC8, CHR 0xC9, CHR 0xCA, CHR 0xCB, CHR 0xCC, CHR 0xCD, CHR 0xCE, CHR 0xCF,
      CHR 0xD0, CHR 0xD1, CHR 0xD2, CHR 0xD3, CHR 0xD4, CHR 0xD5, CHR 0xD6,
      CHR 0xD8, CHR 0xD9, CHR 0xDA, CHR 0xDB, CHR 0xDC, CHR 0xDD, CHR 0xDE]"

definition upper_char :: "char \<Rightarrow> string" where
  "upper_char c =
     (if c = CHR 0xDF then ''SS''
      else case map_of (zip lowercase uppercase) c of Some u \<Rightarrow> [u] | None \<Rightarrow> [c])"

definition upper :: "string \<Rightarrow> string" where
  "upper s = concat (map upper_char s)"

section \<open>Composition of one sequence\<close>

text \<open>
  \<^verbatim>\<open>calculate_gc_content\<close>: the sequence is uppercased first, and both the count and the
  length are taken on the uppercased sequence. \<^verbatim>\<open>sequence.count('G')\<close> with a one-letter
  argument is the number of occurrences, \<^const>\<open>count_list\<close>.
\<close>

definition calculate_gc_content :: "string \<Rightarrow> real" where
  "calculate_gc_content sequence0 =
     (let sequence = upper sequence0;
          gc_count = count_list sequence CHR ''G'' + count_list sequence CHR ''C'';
          len = length sequence
      in if len = 0 then 0 else (real gc_count / real len) * 100)"

text \<open>\<^verbatim>\<open>calculate_nucleotide_counts\<close>: the tuple \<open>(a_count, c_count, g_count, t_count)\<close>.\<close>

definition calculate_nucleotide_counts :: "string \<Rightarrow> nat \<times> nat \<times> nat \<times> nat" where
  "calculate_nucleotide_counts sequence0 =
     (let sequence = upper sequence0;
          a_count = count_list sequence CHR ''A'';
          c_count = count_list sequence CHR ''C'';
          g_count = count_list sequence CHR ''G'';
          t_count = count_list sequence CHR ''T''
      in (a_count, c_count, g_count, t_count))"

section \<open>The chi-square test\<close>

text \<open>
  \<^verbatim>\<open>perform_chisquare_test\<close> returns a tuple of five values, all \<^verbatim>\<open>None\<close> when there
  is too little data: an optional record. The call of \<^verbatim>\<open>scipy.stats.chisquare\<close> is the one
  place of the function where an exception can come from, so the library function is a
  parameter that may fail, and its failure is the failure of the caller.
\<close>

datatype error = LibraryError

record chisquare_result =
  test_statistic :: real
  test_p_value :: real
  test_observed_gc :: real
  test_expected_gc :: real
  test_total :: nat

type_synonym chisquare_fn = "nat list \<Rightarrow> real list \<Rightarrow> error + real \<times> real"

text \<open>The local lists of \<^verbatim>\<open>perform_chisquare_test\<close>, in the order of the source.\<close>

definition observed :: "string \<Rightarrow> nat list" where
  "observed sequence =
     (case calculate_nucleotide_counts sequence of
        (a_count, c_count, g_count, t_count) \<Rightarrow> [c_count, g_count, a_count, t_count])"

definition expected :: "string \<Rightarrow> real \<Rightarrow> real list" where
  "expected sequence expected_gc =
     (let total = sum_list (observed sequence);
          expected_gc_count = real total * (expected_gc / 100) / 2;
          expected_at_count = real total * ((100 - expected_gc) / 100) / 2
      in [expected_gc_count, expected_gc_count, expected_at_count, expected_at_count])"

definition observed_filtered :: "string \<Rightarrow> real \<Rightarrow> nat list" where
  "observed_filtered sequence expected_gc =
     map fst (filter (\<lambda>(ob, ex). ex \<noteq> 0) (zip (observed sequence) (expected sequence expected_gc)))"

definition expected_filtered :: "string \<Rightarrow> real \<Rightarrow> real list" where
  "expected_filtered sequence expected_gc =
     map snd (filter (\<lambda>(ob, ex). ex \<noteq> 0) (zip (observed sequence) (expected sequence expected_gc)))"

definition perform_chisquare_test ::
  "chisquare_fn \<Rightarrow> string \<Rightarrow> real \<Rightarrow> error + chisquare_result option" where
  "perform_chisquare_test chisquare sequence expected_gc =
     (case calculate_nucleotide_counts sequence of
        (a_count, c_count, g_count, t_count) \<Rightarrow>
          let total = sum_list (observed sequence) in
          if length (observed_filtered sequence expected_gc) < 2 then Inr None
          else
            (case chisquare (observed_filtered sequence expected_gc)
                            (expected_filtered sequence expected_gc) of
               Inl err \<Rightarrow> Inl err
             | Inr (statistic, p_value) \<Rightarrow>
                 let observed_gc =
                       (if total > 0 then real (c_count + g_count) / real total * 100 else 0)
                 in Inr (Some \<lparr>test_statistic = statistic, test_p_value = p_value,
                                test_observed_gc = observed_gc, test_expected_gc = expected_gc,
                                test_total = total\<rparr>)))"


text \<open>
  \<^verbatim>\<open>scipy.stats.chisquare\<close> is a library function outside the repository; the three
  definitions that follow model it from the specification, which gives the statistic as the
  sum over the classes of \<open>(observed - expected)\<^sup>2 / expected\<close> and the p-value as the upper
  tail of the chi-square distribution with \<open>k - 1\<close> degrees of freedom at the statistic, \<open>k\<close>
  the number of classes.
\<close>

text \<open>
  Modelled from the spec: the complementary error function, as its power series; the upper
  tail of the chi-square distribution with an odd number of degrees of freedom is written
  with it.
\<close>

definition erfc :: "real \<Rightarrow> real" where
  "erfc z = 1 - 2 / sqrt pi * (\<Sum>n. (- 1) ^ n * z ^ (2 * n + 1) / (fact n * real (2 * n + 1)))"

text \<open>
  Modelled from the spec: the upper tail (survival function) of the chi-square distribution
  with \<open>df \<ge> 1\<close> degrees of freedom, that is the regularized upper incomplete gamma function
  \<open>Q (df / 2, x / 2)\<close>, in its closed forms for an even and for an odd \<open>df\<close>; left of the
  support the tail is 1.
\<close>

definition chi2_sf :: "nat \<Rightarrow> real \<Rightarrow> real" where
  "chi2_sf df x =
     (if x \<le> 0 then 1
      else
        (let h = x / 2; m = df div 2 in
         if even df then exp (- h) * (\<Sum>j<m. h ^ j / fact j)
         else erfc (sqrt h) +
              exp (- h) * (\<Sum>j = 1..m. sqrt h * h ^ (j - 1) * (4 ^ j * fact j) / (fact (2 * j) * sqrt pi))))"

text \<open>
  Modelled from the spec: \<^verbatim>\<open>scipy.stats.chisquare(f_obs, f_exp)\<close>, the statistic and the
  p-value of the test; the model never fails.
\<close>

definition chisquare :: chisquare_fn where
  "chisquare f_obs f_exp =
     (let statistic = (\<Sum>(ob, ex) \<leftarrow> zip f_obs f_exp. (real ob - ex)\<^sup>2 / ex)
      in Inr (statistic, chi2_sf (length f_obs - 1) statistic))"

section \<open>The verdict\<close>

text \<open>
  \<^verbatim>\<open>main\<close> prints one of three messages for a record and \<^verbatim>\<open>visualize_gc_content\<close> writes
  one of two labels, or none, on the chart. The threshold is the literal 0.05 in both places;
  no function of the source takes it as an argument.
\<close>

datatype verdict = Significant | NotSignificant | InsufficientData

definition alpha :: real where
  "alpha = 0.05"

definition main_verdict :: "chisquare_result option \<Rightarrow> verdict" where
  "main_verdict test =
     (case test of
        Some r \<Rightarrow> if test_p_value r < alpha then Significant else NotSignificant
      | None \<Rightarrow> InsufficientData)"

definition significance_label :: "chisquare_result option \<Rightarrow> verdict option" where
  "significance_label test =
     (case test of
        Some r \<Rightarrow> Some (if test_p_value r < alpha then Significant else NotSignificant)
      | None \<Rightarrow> None)"

section \<open>The parser\<close>

text \<open>
  \<^verbatim>\<open>read_fasta_string\<close> scans the lines of the text once, with three variables: the
  dictionary \<open>sequences\<close>, the current \<open>header\<close> (\<^verbatim>\<open>None\<close> before the first header
  line) and the \<open>sequence\<close> gathered since. The dictionary is a map. No operation of the
  loop raises on a text, so the handler of the source, which would return the empty dictionary,
  is never entered.
\<close>

type_synonym parser_state = "(string \<rightharpoonup> string) \<times> string option \<times> string"

text \<open>
  \<^verbatim>\<open>if header: sequences[header] = sequence\<close>. The test is Python's truth value of the
  header: \<^verbatim>\<open>None\<close> and the empty string are both false.
\<close>

definition store :: "(string \<rightharpoonup> string) \<Rightarrow> string option \<Rightarrow> string \<Rightarrow> (string \<rightharpoonup> string)" where
  "store sequences header sequence =
     (case header of
        None \<Rightarrow> sequences
      | Some h \<Rightarrow> if h \<noteq> [] then sequences(h \<mapsto> sequence) else sequences)"

text \<open>The body of the loop; \<^verbatim>\<open>line[1:]\<close> is \<^term>\<open>drop 1 line\<close>.\<close>

definition step :: "parser_state \<Rightarrow> string \<Rightarrow> parser_state" where
  "step st line0 =
     (case st of
        (sequences, header, sequence) \<Rightarrow>
          let line = strip line0 in
          if startswith_gt line then (store sequences header sequence, Some (drop 1 line), [])
          else (sequences, header, sequence @ line))"

text \<open>After the loop the last record is stored by the same test, and the dictionary returned.\<close>

definition finish :: "parser_state \<Rightarrow> (string \<rightharpoonup> string)" where
  "finish st = (case st of (sequences, header, sequence) \<Rightarrow> store sequences header sequence)"

definition read_fasta_lines :: "string list \<Rightarrow> (string \<rightharpoonup> string)" where
  "read_fasta_lines lines = finish (foldl step (Map.empty, None, []) lines)"

definition read_fasta_string :: "string \<Rightarrow> (string \<rightharpoonup> string)" where
  "read_fasta_string fasta_string = read_fasta_lines (splitlines fasta_string)"

text \<open>
  What the loop takes for a header line, and the identifier it reads from one: both are
  decided on the stripped line.
\<close>

definition is_delimiter :: "string \<Rightarrow> bool" where
  "is_delimiter line0 = startswith_gt (strip line0)"

definition header_of :: "string \<Rightarrow> string" where
  "header_of line0 = drop 1 (strip line0)"

text \<open>The bases a record gathers from the lines that follow its header line.\<close>

definition bases_of :: "string list \<Rightarrow> string" where
  "bases_of lines = concat (map strip (takeWhile (\<lambda>l. \<not> is_delimiter l) lines))"

text \<open>
  The texts of the round trip. \<open>concat_records\<close> is the text as the specification words it,
  each pair written as \<^verbatim>\<open>">" + id + "\n" + bases\<close> and the pieces concatenated;
  \<open>record_lines\<close> ends every line, the last one of a record too, with a line feed.
\<close>

definition concat_records :: "(string \<times> string) list \<Rightarrow> string" where
  "concat_records ps = concat (map (\<lambda>(i, b). ''>'' @ i @ [CHR 0x0A] @ b) ps)"

definition record_lines :: "(string \<times> string) list \<Rightarrow> string" where
  "record_lines ps = concat (map (\<lambda>(i, b). ''>'' @ i @ [CHR 0x0A] @ b @ [CHR 0x0A]) ps)"

text \<open>
  An identifier and a sequence that a line of their own gives back unchanged: no line break
  inside, no white space that \<open>strip\<close> would remove, an identifier that is not empty and a
  sequence that does not start a header line.
\<close>

definition plain_id :: "string \<Rightarrow> bool" where
  "plain_id i \<longleftrightarrow> i \<noteq> [] \<and> \<not> isspace (last i) \<and> list_all (\<lambda>c. \<not> is_linebreak c) i"

definition plain_bases :: "string \<Rightarrow> bool" where
  "plain_bases b \<longleftrightarrow>
     (b = [] \<or> (\<not> isspace (hd b) \<and> \<not> isspace (last b) \<and> hd b \<noteq> CHR ''>'')) \<and>
     list_all (\<lambda>c. \<not> is_linebreak c) b"

section \<open>Facts about the strings\<close>

lemma upper_char_not_Nil: "upper_char c \<noteq> []"
  by (simp add: upper_char_def split: option.split)

lemma upper_Nil_iff: "upper s = [] \<longleftrightarrow> s = []"
  by (cases s) (simp_all add: upper_def upper_char_not_Nil)

lemma upper_Cons: "upper (c # s) = upper_char c @ upper s"
  by (simp add: upper_def)

lemma upper_append: "upper (s @ t) = upper s @ upper t"
  by (simp add: upper_def)

lemma length_upper_char: "c \<noteq> CHR 0xDF \<Longrightarrow> length (upper_char c) = 1"
  by (simp add: upper_char_def split: option.split)

lemma length_upper: "CHR 0xDF \<notin> set s \<Longrightarrow> length (upper s) = length s"
  by (induction s) (auto simp: upper_Cons length_upper_char upper_def)

lemma upper_char_acgt:
  "upper_char CHR ''A'' = ''A''" "upper_char CHR ''C'' = ''C''"
  "upper_char CHR ''G'' = ''G''" "upper_char CHR ''T'' = ''T''"
  "upper_char CHR ''a'' = ''A''" "upper_char CHR ''c'' = ''C''"
  "upper_char CHR ''g'' = ''G''" "upper_char CHR ''t'' = ''T''"
  by (simp_all add: upper_char_def lowercase_def uppercase_def)

lemma upper_upper_acgt: "set s \<subseteq> set ''ACGTacgt'' \<Longrightarrow> upper (upper s) = upper s"
proof (induction s)
  case Nil
  show ?case by (simp add: upper_def)
next
  case (Cons c s)
  then have c: "c \<in> set ''ACGTacgt''" and s: "upper (upper s) = upper s"
    by simp_all
  from c have "upper (upper_char c) = upper_char c"
    by (auto simp: upper_char_acgt upper_Cons) (simp_all add: upper_def)
  with s show ?case
    by (simp add: upper_Cons upper_append)
qed

lemma count_two_le: "x \<noteq> y \<Longrightarrow> count_list xs x + count_list xs y \<le> length xs"
  by (induction xs) auto

lemma four_counts:
  "count_list u CHR ''A'' + count_list u CHR ''C'' + count_list u CHR ''G'' + count_list u CHR ''T''
     = length (filter (\<lambda>ch. ch \<in> set ''ACGT'') u)"
  by (induction u) auto

lemma four_counts_less:
  "count_list u CHR ''A'' + count_list u CHR ''C'' + count_list u CHR ''G'' + count_list u CHR ''T''
     < length u \<longleftrightarrow> (\<exists>ch \<in> set u. ch \<notin> set ''ACGT'')"
proof -
  have "length (filter (\<lambda>ch. ch \<in> set ''ACGT'') u) < length u
          \<longleftrightarrow> (\<exists>ch \<in> set u. ch \<notin> set ''ACGT'')"
  proof
    assume "length (filter (\<lambda>ch. ch \<in> set ''ACGT'') u) < length u"
    then have "filter (\<lambda>ch. ch \<in> set ''ACGT'') u \<noteq> u"
      by auto
    then show "\<exists>ch \<in> set u. ch \<notin> set ''ACGT''"
      by (metis filter_True)
  next
    assume "\<exists>ch \<in> set u. ch \<notin> set ''ACGT''"
    then show "length (filter (\<lambda>ch. ch \<in> set ''ACGT'') u) < length u"
      by (auto intro: length_filter_less)
  qed
  then show ?thesis
    by (simp only: four_counts)
qed

section \<open>GC content\<close>

lemma gc_content_unfold:
  "calculate_gc_content s =
     (if s = [] then 0
      else real (count_list (upper s) CHR ''G'' + count_list (upper s) CHR ''C'')
             / real (length (upper s)) * 100)"
  by (simp add: calculate_gc_content_def Let_def upper_Nil_iff)

lemma gc_content_bounds: "0 \<le> calculate_gc_content s \<and> calculate_gc_content s \<le> 100"
proof (cases "s = []")
  case True
  then show ?thesis by (simp add: gc_content_unfold)
next
  case False
  let ?u = "upper s"
  let ?gc = "count_list ?u CHR ''G'' + count_list ?u CHR ''C''"
  have pos: "0 < length ?u"
    using False by (simp add: upper_Nil_iff)
  have "?gc \<le> length ?u"
    by (rule count_two_le) simp
  then have "real ?gc / real (length ?u) \<le> 1"
    using pos by simp
  then have "real ?gc / real (length ?u) * 100 \<le> 1 * 100"
    by (rule mult_right_mono) simp
  then have "real ?gc / real (length ?u) * 100 \<le> 100"
    by (simp only: mult_1)
  moreover have "0 \<le> real ?gc / real (length ?u) * 100"
    by simp
  ultimately show ?thesis
    using False by (simp add: gc_content_unfold)
qed

text \<open>
  C3, as amended. The GC percentage is \<open>100 * (g_count + c_count)\<close> divided by the length of
  the uppercased sequence, which is the length of the sequence itself unless the sequence
  holds the letter 0xDF; it is 0 for the empty sequence, and it lies between 0 and 100.
\<close>

theorem gc_content_formula:
  "calculate_gc_content s =
     (if length s = 0 then 0
      else case calculate_nucleotide_counts s of
             (a_count, c_count, g_count, t_count) \<Rightarrow>
               100 * real (g_count + c_count) / real (length (upper s))) \<and>
   0 \<le> calculate_gc_content s \<and> calculate_gc_content s \<le> 100 \<and>
   (CHR 0xDF \<notin> set s \<longrightarrow> length (upper s) = length s)"
  using gc_content_bounds [of s]
  by (simp add: gc_content_unfold calculate_nucleotide_counts_def Let_def length_upper)

theorem gc_content_formula_witness:
  "calculate_gc_content ''GgNa'' = 50 \<and> length (upper ''GgNa'') = length ''GgNa''"
proof -
  have u: "upper ''GgNa'' = ''GGNA''"
    by (simp add: upper_def upper_char_def lowercase_def uppercase_def)
  have "calculate_nucleotide_counts ''GgNa'' = (1, 0, 2, 0)"
    by (simp add: calculate_nucleotide_counts_def u)
  with gc_content_formula [of "''GgNa''"] show ?thesis
    by (simp add: u)
qed

text \<open>
  C3, as stated, fails where uppercasing lengthens the sequence: for the two letters 0xDF and
  G the code divides by 3, the length of SSG, and returns a third of 100, not 50.
\<close>

theorem gc_content_length_counterexample:
  "calculate_nucleotide_counts [CHR 0xDF, CHR ''G''] = (0, 0, 1, 0) \<and>
   length [CHR 0xDF, CHR ''G''] = 2 \<and>
   calculate_gc_content [CHR 0xDF, CHR ''G''] = 100 / 3 \<and>
   calculate_gc_content [CHR 0xDF, CHR ''G''] \<noteq> 100 * real (1 + 0) / real 2"
proof -
  have u: "upper [CHR 0xDF, CHR ''G''] = ''SSG''"
    by (simp add: upper_def upper_char_def lowercase_def uppercase_def)
  show ?thesis
    by (simp add: calculate_nucleotide_counts_def calculate_gc_content_def u)
qed

text \<open>
  C9. On a sequence of the letters A, C, G, T and a, c, g, t, counting the uppercased
  sequence gives the counts of the sequence itself.
\<close>

theorem counts_case_invariant:
  "set s \<subseteq> set ''ACGTacgt'' \<Longrightarrow>
     calculate_nucleotide_counts (upper s) = calculate_nucleotide_counts s"
  by (simp only: calculate_nucleotide_counts_def upper_upper_acgt)

theorem counts_case_invariant_witness:
  "set ''acgGt'' \<subseteq> set ''ACGTacgt'' \<and>
   calculate_nucleotide_counts (upper ''acgGt'') = (1, 1, 2, 1) \<and>
   calculate_nucleotide_counts ''acgGt'' = (1, 1, 2, 1)"
proof -
  have h: "set ''acgGt'' \<subseteq> set ''ACGTacgt''"
    by simp
  have u: "upper ''acgGt'' = ''ACGGT''"
    by (simp add: upper_def upper_char_acgt)
  have "calculate_nucleotide_counts ''acgGt'' = (1, 1, 2, 1)"
    by (simp add: calculate_nucleotide_counts_def u)
  with counts_case_invariant [OF h] h show ?thesis
    by simp
qed

section \<open>The chi-square test: which classes remain\<close>

lemma sum_list_observed:
  "sum_list (observed s) =
     (case calculate_nucleotide_counts s of (a_count, c_count, g_count, t_count) \<Rightarrow>
        a_count + c_count + g_count + t_count)"
  by (simp add: observed_def split: prod.split)

lemma length_observed: "length (observed s) = 4"
  by (simp add: observed_def split: prod.split)

lemma filter_expected:
  "filter (\<lambda>(ob, ex). ex \<noteq> 0) (zip [o1, o2, o3, o4] [x, x, y, y]) =
     (if x \<noteq> 0 then [(o1, x), (o2, x)] else []) @ (if y \<noteq> (0::real) then [(o3, y), (o4, y)] else [])"
  by simp

lemma length_observed_filtered:
  "length (observed_filtered s e) =
     (if sum_list (observed s) = 0 then 0 else if e = 0 \<or> e = 100 then 2 else 4)"
proof -
  obtain o1 o2 o3 o4 where obs: "observed s = [o1, o2, o3, o4]"
    by (cases "calculate_nucleotide_counts s") (auto simp: observed_def)
  define x where "x = real (sum_list (observed s)) * (e / 100) / 2"
  define y where "y = real (sum_list (observed s)) * ((100 - e) / 100) / 2"
  have ex: "expected s e = [x, x, y, y]"
    by (simp add: expected_def Let_def x_def y_def)
  have x0: "x = 0 \<longleftrightarrow> sum_list (observed s) = 0 \<or> e = 0"
    by (simp add: x_def)
  have y0: "y = 0 \<longleftrightarrow> sum_list (observed s) = 0 \<or> e = 100"
    by (simp add: y_def)
  have "length (observed_filtered s e) = (if x \<noteq> 0 then 2 else 0) + (if y \<noteq> 0 then 2 else 0)"
    unfolding observed_filtered_def ex
    by (simp only: obs filter_expected) simp
  then show ?thesis
    using x0 y0 by auto
qed

lemma length_expected_filtered:
  "length (expected_filtered s e) = length (observed_filtered s e)"
  by (simp add: observed_filtered_def expected_filtered_def)

lemma perform_chisquare_test_unfold:
  assumes "calculate_nucleotide_counts s = (a_count, c_count, g_count, t_count)"
  shows "perform_chisquare_test chi s e =
     (if length (observed_filtered s e) < 2 then Inr None
      else
        (case chi (observed_filtered s e) (expected_filtered s e) of
           Inl err \<Rightarrow> Inl err
         | Inr (statistic, p_value) \<Rightarrow>
             Inr (Some \<lparr>test_statistic = statistic, test_p_value = p_value,
                 test_observed_gc =
                   (if sum_list (observed s) > 0
                    then real (c_count + g_count) / real (sum_list (observed s)) * 100
                    else 0),
                 test_expected_gc = e, test_total = sum_list (observed s)\<rparr>)))"
  using assms
  by (simp add: perform_chisquare_test_def Let_def split: sum.split prod.split)




section \<open>The observed GC percentage of the test\<close>

lemma perform_chisquare_test_Some:
  assumes r: "perform_chisquare_test chi s e = Inr (Some r)"
    and c: "calculate_nucleotide_counts s = (a_count, c_count, g_count, t_count)"
  shows "0 < a_count + c_count + g_count + t_count"
    and "test_observed_gc r =
           real (c_count + g_count) / real (a_count + c_count + g_count + t_count) * 100"
    and "test_total r = a_count + c_count + g_count + t_count"
    and "test_expected_gc r = e"
proof -
  let ?T = "a_count + c_count + g_count + t_count"
  note unfold = perform_chisquare_test_unfold [OF c, of chi e]
  have T: "sum_list (observed s) = ?T"
    using c by (simp add: sum_list_observed)
  have ge: "\<not> length (observed_filtered s e) < 2"
  proof
    assume "length (observed_filtered s e) < 2"
    with r unfold show False by simp
  qed
  then show pos: "0 < ?T"
    using T by (simp add: length_observed_filtered split: if_splits)
  obtain st p where chi: "chi (observed_filtered s e) (expected_filtered s e) = Inr (st, p)"
    using r ge unfold by (cases "chi (observed_filtered s e) (expected_filtered s e)") auto
  have "r = \<lparr>test_statistic = st, test_p_value = p,
          test_observed_gc = real (c_count + g_count) / real ?T * 100,
          test_expected_gc = e, test_total = ?T\<rparr>"
    using r ge unfold chi T pos by simp
  then show "test_observed_gc r = real (c_count + g_count) / real ?T * 100"
    and "test_total r = ?T" and "test_expected_gc r = e"
    by simp_all
qed

text \<open>
  C7. The observed GC percentage of a test result is \<open>(c_count + g_count) / T * 100\<close>, with
  \<open>T\<close> the number of classified bases (a result exists only when \<open>T > 0\<close>, so the value 0 of
  the source for \<open>T = 0\<close> is never returned). Where the uppercased sequence holds a symbol
  other than A, C, G, T and at least one G or C, it is greater than the GC percentage of the
  sequence, which divides by the length; the result carries it as it is.
\<close>

theorem observed_gc_denominator:
  assumes "perform_chisquare_test chi s e = Inr (Some r)"
    and "calculate_nucleotide_counts s = (a_count, c_count, g_count, t_count)"
    and "T = a_count + c_count + g_count + t_count"
  shows "test_observed_gc r = (if T > 0 then real (c_count + g_count) / real T * 100 else 0) \<and>
         0 < T \<and> test_total r = T \<and>
         ((\<exists>ch \<in> set (upper s). ch \<notin> set ''ACGT'') \<and> 0 < c_count + g_count \<longrightarrow>
            calculate_gc_content s < test_observed_gc r) \<and>
         ((\<forall>ch \<in> set (upper s). ch \<in> set ''ACGT'') \<or> c_count + g_count = 0 \<longrightarrow>
            calculate_gc_content s = test_observed_gc r)"
proof -
  let ?u = "upper s"
  let ?cg = "c_count + g_count"
  note res = perform_chisquare_test_Some [OF assms(1,2)]
  have pos: "0 < T" and obs: "test_observed_gc r = real ?cg / real T * 100"
    and tot: "test_total r = T"
    using res assms(3) by simp_all
  have counts: "a_count = count_list ?u CHR ''A''" "c_count = count_list ?u CHR ''C''"
    "g_count = count_list ?u CHR ''G''" "t_count = count_list ?u CHR ''T''"
    using assms(2) by (simp_all add: calculate_nucleotide_counts_def Let_def)
  have ne: "s \<noteq> []"
    using pos assms(3) counts by (auto simp: upper_def)
  have gc: "calculate_gc_content s = real ?cg / real (length ?u) * 100"
    using ne counts by (simp add: gc_content_unfold add.commute)
  have T_le: "T \<le> length ?u"
    using assms(3) counts four_counts [of ?u] by simp
  have T_less: "T < length ?u \<longleftrightarrow> (\<exists>ch \<in> set ?u. ch \<notin> set ''ACGT'')"
    using assms(3) counts four_counts_less [of ?u] by simp
  have greater: "calculate_gc_content s < test_observed_gc r"
    if "\<exists>ch \<in> set ?u. ch \<notin> set ''ACGT''" and "0 < ?cg"
  proof -
    have lt: "real T < real (length ?u)"
      using that(1) T_less by simp
    have cgpos: "0 < real ?cg"
      using that(2) by (simp only: of_nat_0_less_iff)
    have Tpos: "0 < real T"
      using pos by simp
    have Lpos: "0 < real (length ?u)"
      using Tpos lt by linarith
    have "real ?cg / real (length ?u) < real ?cg / real T"
      by (rule divide_strict_left_mono [OF lt cgpos mult_pos_pos [OF Lpos Tpos]])
    then have "real ?cg / real (length ?u) * 100 < real ?cg / real T * 100"
      by (rule mult_strict_right_mono) simp
    then show ?thesis
      by (simp only: gc obs)
  qed
  have equal: "calculate_gc_content s = test_observed_gc r"
    if "(\<forall>ch \<in> set ?u. ch \<in> set ''ACGT'') \<or> ?cg = 0"
  proof (cases "?cg = 0")
    case True
    then show ?thesis by (simp add: gc obs)
  next
    case False
    with that have "\<not> T < length ?u"
      using T_less by blast
    with T_le have "T = length ?u" by simp
    then show ?thesis by (simp only: gc obs)
  qed
  show ?thesis
    using pos obs tot greater equal by simp
qed

lemma chisquare_GGNN: "chisquare [0, 2] [1, 1] = Inr (2, chi2_sf 1 2)"
  by (simp add: chisquare_def)

theorem observed_gc_denominator_witness:
  "perform_chisquare_test chisquare ''GGNN'' 100 =
     Inr (Some \<lparr>test_statistic = 2, test_p_value = chi2_sf 1 2, test_observed_gc = 100,
               test_expected_gc = 100, test_total = 2\<rparr>) \<and>
   calculate_gc_content ''GGNN'' = 50"
proof -
  have u: "upper ''GGNN'' = ''GGNN''"
    by (simp add: upper_def upper_char_def lowercase_def uppercase_def)
  have c: "calculate_nucleotide_counts ''GGNN'' = (0, 0, 2, 0)"
    by (simp add: calculate_nucleotide_counts_def u Let_def)
  have ob: "observed ''GGNN'' = [0, 2, 0, 0]"
    by (simp add: observed_def c)
  have ex: "expected ''GGNN'' 100 = [1, 1, 0, 0]"
    by (simp add: expected_def ob Let_def)
  have f: "observed_filtered ''GGNN'' 100 = [0, 2]" "expected_filtered ''GGNN'' 100 = [1, 1]"
    by (simp_all add: observed_filtered_def expected_filtered_def ob ex)
  have r: "perform_chisquare_test chisquare ''GGNN'' 100 =
     Inr (Some \<lparr>test_statistic = 2, test_p_value = chi2_sf 1 2, test_observed_gc = 100,
               test_expected_gc = 100, test_total = 2\<rparr>)"
    by (simp add: perform_chisquare_test_unfold [OF c] f ob chisquare_GGNN)
  have g: "calculate_gc_content ''GGNN'' = 50"
    by (simp add: calculate_gc_content_def u Let_def)
  from observed_gc_denominator [OF r c refl] r g show ?thesis
    by simp
qed

section \<open>The balanced sequence\<close>

lemma chisquare_balanced: "chisquare [4, 4, 4, 4] [4, 4, 4, 4] = Inr (0, 1)"
  by (simp add: chisquare_def chi2_sf_def)

text \<open>
  C4. For GGGGCCCCAAAATTTT and an expected GC percentage of 50: four of each base, a GC
  percentage of 50, a statistic of 0 and a p-value of 1 (with the chi-square test as the
  specification describes it), and the verdict that the deviation is not significant.
\<close>

theorem balanced_sequence:
  "calculate_nucleotide_counts ''GGGGCCCCAAAATTTT'' = (4, 4, 4, 4) \<and>
   calculate_gc_content ''GGGGCCCCAAAATTTT'' = 50 \<and>
   perform_chisquare_test chisquare ''GGGGCCCCAAAATTTT'' 50 =
     Inr (Some \<lparr>test_statistic = 0, test_p_value = 1, test_observed_gc = 50,
               test_expected_gc = 50, test_total = 16\<rparr>) \<and>
   main_verdict (Some \<lparr>test_statistic = 0, test_p_value = 1, test_observed_gc = 50,
                       test_expected_gc = 50, test_total = 16\<rparr>) = NotSignificant \<and>
   significance_label (Some \<lparr>test_statistic = 0, test_p_value = 1, test_observed_gc = 50,
                       test_expected_gc = 50, test_total = 16\<rparr>) = Some NotSignificant"
proof -
  let ?s = "''GGGGCCCCAAAATTTT''"
  have u: "upper ?s = ?s"
    by (simp add: upper_def upper_char_acgt)
  have c: "calculate_nucleotide_counts ?s = (4, 4, 4, 4)"
    by (simp add: calculate_nucleotide_counts_def u Let_def)
  have g: "calculate_gc_content ?s = 50"
    by (simp add: calculate_gc_content_def u Let_def)
  have ob: "observed ?s = [4, 4, 4, 4]"
    by (simp add: observed_def c)
  have ex: "expected ?s 50 = [4, 4, 4, 4]"
    by (simp add: expected_def ob Let_def)
  have f: "observed_filtered ?s 50 = [4, 4, 4, 4]" "expected_filtered ?s 50 = [4, 4, 4, 4]"
    by (simp_all add: observed_filtered_def expected_filtered_def ob ex)
  have r: "perform_chisquare_test chisquare ?s 50 =
     Inr (Some \<lparr>test_statistic = 0, test_p_value = 1, test_observed_gc = 50,
               test_expected_gc = 50, test_total = 16\<rparr>)"
    by (simp add: perform_chisquare_test_unfold [OF c] f ob chisquare_balanced)
  have v: "main_verdict (Some \<lparr>test_statistic = 0, test_p_value = 1, test_observed_gc = 50,
                       test_expected_gc = 50, test_total = 16\<rparr>) = NotSignificant"
    by (simp add: main_verdict_def alpha_def)
  have l: "significance_label (Some \<lparr>test_statistic = 0, test_p_value = 1,
      test_observed_gc = 50, test_expected_gc = 50, test_total = 16\<rparr>) = Some NotSignificant"
    by (simp add: significance_label_def alpha_def)
  show ?thesis
    using c g r v l by simp
qed

section \<open>The verdict\<close>

text \<open>
  C6. With a test result, the verdict is that the deviation is significant exactly when the
  p-value is less than \<open>alpha\<close>, the 0.05 of the source; a p-value equal to \<open>alpha\<close> is not
  significant. The label of the chart follows the same rule.
\<close>

theorem verdict_strictly_less:
  "alpha = 0.05 \<and>
   (main_verdict (Some r) = Significant \<longleftrightarrow> test_p_value r < alpha) \<and>
   (main_verdict (Some r) = NotSignificant \<longleftrightarrow> \<not> test_p_value r < alpha) \<and>
   main_verdict (Some (r\<lparr>test_p_value := alpha\<rparr>)) = NotSignificant \<and>
   (significance_label (Some r) = Some Significant \<longleftrightarrow> test_p_value r < alpha) \<and>
   (significance_label (Some r) = Some NotSignificant \<longleftrightarrow> \<not> test_p_value r < alpha) \<and>
   significance_label (Some (r\<lparr>test_p_value := alpha\<rparr>)) = Some NotSignificant"
  by (simp add: main_verdict_def significance_label_def alpha_def)

theorem verdict_strictly_less_witness:
  "main_verdict (Some \<lparr>test_statistic = 4, test_p_value = 0.05, test_observed_gc = 60,
                       test_expected_gc = 50, test_total = 100\<rparr>) = NotSignificant \<and>
   main_verdict (Some \<lparr>test_statistic = 4, test_p_value = 0.049, test_observed_gc = 60,
                       test_expected_gc = 50, test_total = 100\<rparr>) = Significant"
  using
    verdict_strictly_less [of "\<lparr>test_statistic = 4, test_p_value = 0.05, test_observed_gc = 60,
                       test_expected_gc = 50, test_total = 100\<rparr>"]
    verdict_strictly_less [of "\<lparr>test_statistic = 4, test_p_value = 0.049, test_observed_gc = 60,
                       test_expected_gc = 50, test_total = 100\<rparr>"]
  by simp

section \<open>Facts about the lines\<close>

lemma splitlines_line:
  "list_all (\<lambda>c. \<not> is_linebreak c) l \<Longrightarrow>
     splitlines (l @ CHR 0x0A # rest) = l # splitlines rest"
proof (induction l)
  case Nil
  show ?case by (simp add: is_linebreak_def)
next
  case (Cons c l)
  then have nb: "\<not> is_linebreak c"
    and IH: "splitlines (l @ CHR 0x0A # rest) = l # splitlines rest"
    by simp_all
  from nb have "c \<noteq> CHR 0x0D"
    by (auto simp: is_linebreak_def)
  with nb IH show ?case by simp
qed

lemma strip_plain:
  assumes "s = [] \<or> (\<not> isspace (hd s) \<and> \<not> isspace (last s))"
  shows "strip s = s"
proof -
  have a: "dropWhile isspace s = s"
    using assms by (auto simp: dropWhile_eq_self_iff)
  have b: "dropWhile isspace (rev s) = rev s"
    using assms by (auto simp: dropWhile_eq_self_iff hd_rev)
  show ?thesis
    by (simp add: strip_def a b)
qed

lemma strip_header_line:
  assumes "plain_id i"
  shows "strip (CHR ''>'' # i) = CHR ''>'' # i"
proof (rule strip_plain)
  from assms have "i \<noteq> []" and "\<not> isspace (last i)"
    by (simp_all add: plain_id_def)
  then show "CHR ''>'' # i = [] \<or>
      (\<not> isspace (hd (CHR ''>'' # i)) \<and> \<not> isspace (last (CHR ''>'' # i)))"
    by (simp add: isspace_def)
qed

lemma strip_bases_line: "plain_bases b \<Longrightarrow> strip b = b"
  by (rule strip_plain) (auto simp: plain_bases_def)

section \<open>Facts about the loop\<close>

lemma step_delimiter:
  "is_delimiter l \<Longrightarrow> step (m, h, acc) l = (store m h acc, Some (header_of l), [])"
  by (simp add: step_def is_delimiter_def header_of_def Let_def)

lemma step_other:
  "\<not> is_delimiter l \<Longrightarrow> step (m, h, acc) l = (m, h, acc @ strip l)"
  by (simp add: step_def is_delimiter_def Let_def)

lemma is_delimiter_header_line: "plain_id i \<Longrightarrow> is_delimiter (CHR ''>'' # i)"
  by (simp add: is_delimiter_def strip_header_line startswith_gt_def)

lemma header_of_header_line: "plain_id i \<Longrightarrow> header_of (CHR ''>'' # i) = i"
  by (simp add: header_of_def strip_header_line)

lemma not_delimiter_bases_line: "plain_bases b \<Longrightarrow> \<not> is_delimiter b"
  by (cases b) (auto simp: is_delimiter_def strip_bases_line startswith_gt_def plain_bases_def)

lemma store_other: "h \<noteq> Some k \<Longrightarrow> store m h acc k = m k"
  by (auto simp: store_def split: option.split)

lemma store_same: "k \<noteq> [] \<Longrightarrow> store m (Some k) acc k = Some acc"
  by (simp add: store_def)

lemma store_empty_header: "store m (Some []) acc = m"
  by (simp add: store_def)

lemma store_no_empty_key: "[] \<notin> dom m \<Longrightarrow> [] \<notin> dom (store m h acc)"
  by (auto simp: store_def split: option.splits if_splits)

lemma foldl_step_body:
  "\<forall>l \<in> set body. \<not> is_delimiter l \<Longrightarrow>
     foldl step (m, h, acc) body = (m, h, acc @ concat (map strip body))"
  by (induction body arbitrary: acc) (simp_all add: step_other)


lemma bases_of_body_delimiter:
  "\<forall>l \<in> set body. \<not> is_delimiter l \<Longrightarrow> is_delimiter d \<Longrightarrow>
     bases_of (body @ d # rest) = concat (map strip body)"
  by (simp add: bases_of_def takeWhile_tail)

lemma finish_other_key:
  "h \<noteq> Some k \<Longrightarrow> \<forall>l \<in> set ls. is_delimiter l \<longrightarrow> header_of l \<noteq> k \<Longrightarrow>
     finish (foldl step (m, h, acc) ls) k = m k"
proof (induction ls arbitrary: m h acc)
  case Nil
  then show ?case by (simp add: finish_def store_other)
next
  case (Cons l ls)
  show ?case
  proof (cases "is_delimiter l")
    case True
    with Cons.prems have "Some (header_of l) \<noteq> Some k"
      by simp
    then have "finish (foldl step (store m h acc, Some (header_of l), []) ls) k
                 = store m h acc k"
      using Cons.prems by (intro Cons.IH) simp_all
    with True Cons.prems(1) show ?thesis
      by (simp add: step_delimiter store_other)
  next
    case False
    have "finish (foldl step (m, h, acc @ strip l) ls) k = m k"
      using Cons.prems by (intro Cons.IH) simp_all
    with False show ?thesis
      by (simp add: step_other)
  qed
qed

lemma finish_current_key:
  "k \<noteq> [] \<Longrightarrow> \<forall>l \<in> set ls. is_delimiter l \<longrightarrow> header_of l \<noteq> k \<Longrightarrow>
     finish (foldl step (m, Some k, acc) ls) k = Some (acc @ bases_of ls)"
proof (induction ls arbitrary: acc)
  case Nil
  then show ?case by (simp add: finish_def store_same bases_of_def)
next
  case (Cons l ls)
  show ?case
  proof (cases "is_delimiter l")
    case True
    with Cons.prems have ne: "Some (header_of l) \<noteq> Some k"
      by simp
    have "finish (foldl step (store m (Some k) acc, Some (header_of l), []) ls) k
            = store m (Some k) acc k"
      using ne Cons.prems by (intro finish_other_key) simp_all
    with True Cons.prems(1) show ?thesis
      by (simp add: step_delimiter store_same bases_of_def)
  next
    case False
    have "finish (foldl step (m, Some k, acc @ strip l) ls) k
            = Some ((acc @ strip l) @ bases_of ls)"
      using Cons.prems by (intro Cons.IH) simp_all
    with False show ?thesis
      by (simp add: step_other bases_of_def)
  qed
qed

lemma finish_no_empty_key:
  "[] \<notin> dom m \<Longrightarrow> [] \<notin> dom (finish (foldl step (m, h, acc) ls))"
proof (induction ls arbitrary: m h acc)
  case Nil
  then show ?case by (simp add: finish_def store_no_empty_key)
next
  case (Cons l ls)
  show ?case
  proof (cases "is_delimiter l")
    case True
    have "[] \<notin> dom (finish (foldl step (store m h acc, Some (header_of l), []) ls))"
      using Cons.prems by (intro Cons.IH store_no_empty_key)
    with True show ?thesis by (simp add: step_delimiter)
  next
    case False
    have "[] \<notin> dom (finish (foldl step (m, h, acc @ strip l) ls))"
      using Cons.prems by (intro Cons.IH)
    with False show ?thesis by (simp add: step_other)
  qed
qed

lemma read_last_record:
  assumes "lines = ls1 @ d # ls2" and "is_delimiter d" and "header_of d \<noteq> []"
    and "\<forall>l \<in> set ls2. is_delimiter l \<longrightarrow> header_of l \<noteq> header_of d"
  shows "read_fasta_lines lines (header_of d) = Some (bases_of ls2)"
proof -
  obtain m h acc where st: "foldl step (Map.empty, None, []) ls1 = (m, h, acc)"
    by (metis prod_cases3)
  have "finish (foldl step (store m h acc, Some (header_of d), []) ls2) (header_of d)
          = Some ([] @ bases_of ls2)"
    using assms(3,4) by (rule finish_current_key)
  then show ?thesis
    by (simp add: read_fasta_lines_def assms(1,2) st step_delimiter)
qed


lemma read_skip_empty_record:
  assumes "strip d = ''>''" and "\<forall>l \<in> set body. \<not> is_delimiter l"
    and "rest = [] \<or> is_delimiter (hd rest)"
  shows "read_fasta_lines (ls1 @ d # body @ rest) = read_fasta_lines (ls1 @ rest)"
proof -
  obtain m h acc where st: "foldl step (Map.empty, None, []) ls1 = (m, h, acc)"
    by (metis prod_cases3)
  have d: "is_delimiter d" "header_of d = []"
    using assms(1) by (simp_all add: is_delimiter_def header_of_def startswith_gt_def)
  have after: "foldl step (Map.empty, None, []) (ls1 @ d # body)
                 = (store m h acc, Some [], concat (map strip body))"
    using assms(2) by (simp add: st step_delimiter d foldl_step_body)
  show ?thesis
  proof (cases rest)
    case Nil
    then show ?thesis
      using after by (simp add: read_fasta_lines_def st finish_def store_empty_header)
  next
    case (Cons d2 r)
    with assms(3) have d2: "is_delimiter d2" by simp
    have "foldl step (Map.empty, None, []) ((ls1 @ d # body) @ d2 # r)
            = foldl step (foldl step (Map.empty, None, []) (ls1 @ d # body)) (d2 # r)"
      by (rule foldl_append)
    also have "\<dots> = foldl step (store m h acc, Some [], concat (map strip body)) (d2 # r)"
      by (simp only: after)
    also have "\<dots> = foldl step (store m h acc, Some (header_of d2), []) r"
      by (simp add: step_delimiter d2 store_empty_header)
    finally have "foldl step (Map.empty, None, []) ((ls1 @ d # body) @ d2 # r)
            = foldl step (store m h acc, Some (header_of d2), []) r" .
    moreover have "foldl step (Map.empty, None, []) (ls1 @ d2 # r)
            = foldl step (store m h acc, Some (header_of d2), []) r"
      by (simp add: st step_delimiter d2)
    ultimately show ?thesis
      by (simp add: read_fasta_lines_def Cons)
  qed
qed

lemma read_no_empty_key: "[] \<notin> dom (read_fasta_lines lines)"
  unfolding read_fasta_lines_def by (rule finish_no_empty_key) simp

section \<open>Overwriting\<close>





section \<open>No header line, and the last record\<close>




section \<open>The header line without identifier\<close>

text \<open>
  C10. Where a line of the text is \<open>>\<close> alone (after stripping), the record it starts is
  left out: the empty identifier is no key of the mapping, and the mapping is the one of the
  lines without that line and the lines of its record, so the bases gathered under it
  appear nowhere. The line still ends the record before it: that record keeps the bases of
  its own lines only.
\<close>

theorem empty_identifier_record_omitted:
  assumes "splitlines fasta_string = ls1 @ d # body @ rest"
    and "strip d = ''>''"
    and "\<forall>l \<in> set body. \<not> is_delimiter l"
    and "rest = [] \<or> is_delimiter (hd rest)"
  shows "[] \<notin> dom (read_fasta_string fasta_string) \<and>
         read_fasta_string fasta_string = read_fasta_lines (ls1 @ rest) \<and>
         (ls1 = ls0 @ d0 # body0 \<and> is_delimiter d0 \<and> header_of d0 \<noteq> [] \<and>
            (\<forall>l \<in> set body0. \<not> is_delimiter l) \<and>
            (\<forall>l \<in> set rest. is_delimiter l \<longrightarrow> header_of l \<noteq> header_of d0) \<longrightarrow>
              read_fasta_string fasta_string (header_of d0) = Some (concat (map strip body0)))"
proof (intro conjI impI)
  show "[] \<notin> dom (read_fasta_string fasta_string)"
    by (simp only: read_fasta_string_def read_no_empty_key not_False_eq_True)
next
  show "read_fasta_string fasta_string = read_fasta_lines (ls1 @ rest)"
    unfolding read_fasta_string_def assms(1)
    using assms(2,3,4) by (rule read_skip_empty_record)
next
  assume a: "ls1 = ls0 @ d0 # body0 \<and> is_delimiter d0 \<and> header_of d0 \<noteq> [] \<and>
            (\<forall>l \<in> set body0. \<not> is_delimiter l) \<and>
            (\<forall>l \<in> set rest. is_delimiter l \<longrightarrow> header_of l \<noteq> header_of d0)"
  have d: "is_delimiter d" "header_of d = []"
    using assms(2) by (simp_all add: is_delimiter_def header_of_def startswith_gt_def)
  have lines: "splitlines fasta_string = ls0 @ d0 # (body0 @ d # body @ rest)"
    using assms(1) a by simp
  have later: "\<forall>l \<in> set (body0 @ d # body @ rest). is_delimiter l \<longrightarrow> header_of l \<noteq> header_of d0"
    using a assms(3) d by auto
  have "read_fasta_lines (splitlines fasta_string) (header_of d0)
          = Some (bases_of (body0 @ d # body @ rest))"
    using lines a later by (intro read_last_record) simp_all
  then show "read_fasta_string fasta_string (header_of d0) = Some (concat (map strip body0))"
    using a d by (simp add: read_fasta_string_def bases_of_body_delimiter)
qed

theorem empty_identifier_record_omitted_witness:
  "[] \<notin> dom (read_fasta_string ''>a\<newline>G\<newline>>\<newline>C\<newline>>b\<newline>T'') \<and>
   read_fasta_string ''>a\<newline>G\<newline>>\<newline>C\<newline>>b\<newline>T'' = [''a'' \<mapsto> ''G'', ''b'' \<mapsto> ''T''] \<and>
   read_fasta_string ''>a\<newline>G\<newline>>\<newline>C\<newline>>b\<newline>T'' ''a'' = Some ''G''"
proof -
  let ?t = "''>a\<newline>G\<newline>>\<newline>C\<newline>>b\<newline>T''"
  have s: "splitlines ?t = [''>a'', ''G''] @ ''>'' # [''C''] @ [''>b'', ''T'']"
    by (simp add: is_linebreak_def)
  have d: "strip ''>'' = ''>''"
    by (simp add: strip_def isspace_def)
  have da: "is_delimiter ''>a''" "header_of ''>a'' = ''a''"
    "is_delimiter ''>b''" "header_of ''>b'' = ''b''"
    by (simp_all add: is_delimiter_def header_of_def strip_def isspace_def startswith_gt_def)
  have nd: "\<not> is_delimiter ''G''" "\<not> is_delimiter ''C''" "\<not> is_delimiter ''T''"
    by (simp_all add: is_delimiter_def strip_def isspace_def startswith_gt_def)
  have st: "strip ''G'' = ''G''" "strip ''T'' = ''T''"
    by (simp_all add: strip_def isspace_def)
  have r: "read_fasta_lines [''>a'', ''G'', ''>b'', ''T''] = [''a'' \<mapsto> ''G'', ''b'' \<mapsto> ''T'']"
    by (simp add: read_fasta_lines_def step_delimiter step_other da nd st finish_def store_def)
  have h: "\<forall>l \<in> set [''C'']. \<not> is_delimiter l" "[''>b'', ''T''] = [] \<or> is_delimiter (hd [''>b'', ''T''])"
    by (simp_all add: nd da)
  from empty_identifier_record_omitted [OF s d h, of "[]" "''>a''" "[''G'']"]
  show ?thesis
    by (simp add: r da nd st)
qed

section \<open>The round trip\<close>

lemma splitlines_record:
  assumes "plain_id i" and "plain_bases b"
  shows "splitlines (CHR ''>'' # i @ CHR 0x0A # b @ CHR 0x0A # rest)
           = (CHR ''>'' # i) # b # splitlines rest"
proof -
  have 1: "list_all (\<lambda>c. \<not> is_linebreak c) (CHR ''>'' # i)"
    using assms(1) by (simp add: plain_id_def is_linebreak_def)
  have 2: "list_all (\<lambda>c. \<not> is_linebreak c) b"
    using assms(2) by (simp add: plain_bases_def)
  have a: "CHR ''>'' # i @ CHR 0x0A # b @ CHR 0x0A # rest
             = (CHR ''>'' # i) @ CHR 0x0A # (b @ CHR 0x0A # rest)"
    by simp
  show ?thesis
    by (subst a) (simp only: splitlines_line [OF 1] splitlines_line [OF 2])
qed

lemma splitlines_record_lines:
  "\<forall>(i, b) \<in> set ps. plain_id i \<and> plain_bases b \<Longrightarrow>
     splitlines (record_lines ps) = concat (map (\<lambda>(i, b). [CHR ''>'' # i, b]) ps)"
proof (induction ps)
  case Nil
  show ?case by (simp add: record_lines_def)
next
  case (Cons p ps)
  obtain i b where p: "p = (i, b)" by (cases p)
  with Cons.prems have pl: "plain_id i" "plain_bases b"
    by simp_all
  have IH: "splitlines (record_lines ps) = concat (map (\<lambda>(i, b). [CHR ''>'' # i, b]) ps)"
    using Cons by simp
  have rl: "record_lines (p # ps) = CHR ''>'' # i @ CHR 0x0A # b @ CHR 0x0A # record_lines ps"
    by (simp add: record_lines_def p)
  have "splitlines (record_lines (p # ps)) = (CHR ''>'' # i) # b # splitlines (record_lines ps)"
    unfolding rl using pl by (rule splitlines_record)
  then show ?case
    by (simp add: IH p del: splitlines.simps)
qed

lemma finish_records:
  "\<forall>(i, b) \<in> set ps. plain_id i \<and> plain_bases b \<Longrightarrow>
     finish (foldl step (m, h, acc) (concat (map (\<lambda>(i, b). [CHR ''>'' # i, b]) ps)))
       = store m h acc ++ map_of (rev ps)"
proof (induction ps arbitrary: m h acc)
  case Nil
  show ?case by (simp add: finish_def)
next
  case (Cons p ps)
  obtain i b where p: "p = (i, b)" by (cases p)
  with Cons.prems have pl: "plain_id i" "plain_bases b"
    by simp_all
  have two: "step (step (m, h, acc) (CHR ''>'' # i)) b = (store m h acc, Some i, b)"
    using pl
    by (simp add: step_delimiter is_delimiter_header_line header_of_header_line
        step_other not_delimiter_bases_line strip_bases_line)
  have "finish (foldl step (store m h acc, Some i, b)
                  (concat (map (\<lambda>(i, b). [CHR ''>'' # i, b]) ps)))
          = store (store m h acc) (Some i) b ++ map_of (rev ps)"
    using Cons.prems by (intro Cons.IH) simp
  moreover have "store (store m h acc) (Some i) b = (store m h acc)(i \<mapsto> b)"
    using pl(1) by (simp add: store_def plain_id_def)
  ultimately show ?case
    by (simp add: p two)
qed

text \<open>
  C2, as amended. For pairs with distinct identifiers, every identifier and every sequence
  plain, the text that writes each pair as the line \<open>>id\<close> and the line \<open>bases\<close>, every
  line ended by a line feed, parses to exactly the mapping of the pairs.
\<close>

theorem round_trip_lines:
  assumes "distinct (map fst ps)"
    and "\<forall>(i, b) \<in> set ps. plain_id i \<and> plain_bases b"
  shows "read_fasta_string (record_lines ps) = map_of ps"
proof -
  have "read_fasta_string (record_lines ps) = store Map.empty None [] ++ map_of (rev ps)"
    by (simp only: read_fasta_string_def read_fasta_lines_def
        splitlines_record_lines [OF assms(2)] finish_records [OF assms(2)])
  also have "\<dots> = map_of (rev ps)"
    by (simp add: store_def)
  also have "map_of (rev ps) = map_of ps"
  proof -
    have "distinct (map fst (rev ps))"
      using assms(1) by (metis distinct_rev rev_map)
    then show ?thesis
      using assms(1) by (simp add: map_of_inject_set)
  qed
  finally show ?thesis .
qed

theorem round_trip_lines_witness:
  "record_lines [(''id1'', ''ACGT''), (''seq two'', ''GG'')]
     = ''>id1\<newline>ACGT\<newline>>seq two\<newline>GG\<newline>'' \<and>
   read_fasta_string ''>id1\<newline>ACGT\<newline>>seq two\<newline>GG\<newline>''
     = map_of [(''id1'', ''ACGT''), (''seq two'', ''GG'')]"
proof -
  let ?ps = "[(''id1'', ''ACGT''), (''seq two'', ''GG'')]"
  have d: "distinct (map fst ?ps)"
    by simp
  have pl: "\<forall>(i, b) \<in> set ?ps. plain_id i \<and> plain_bases b"
    by (simp add: plain_id_def plain_bases_def isspace_def is_linebreak_def)
  have rl: "record_lines ?ps = ''>id1\<newline>ACGT\<newline>>seq two\<newline>GG\<newline>''"
    by (simp add: record_lines_def)
  from round_trip_lines [OF d pl] rl show ?thesis
    by (simp only:)
qed

text \<open>
  C2, as stated, fails already for two pairs of plain identifiers and sequences: the pieces
  are concatenated with no line break between a sequence and the next header, so the second
  header is read as a part of the first sequence.
\<close>

theorem round_trip_concat_counterexample:
  "distinct (map fst [(''a'', ''G''), (''b'', ''C'')]) \<and>
   concat_records [(''a'', ''G''), (''b'', ''C'')] = ''>a\<newline>G>b\<newline>C'' \<and>
   read_fasta_string (concat_records [(''a'', ''G''), (''b'', ''C'')]) = [''a'' \<mapsto> ''G>bC''] \<and>
   read_fasta_string (concat_records [(''a'', ''G''), (''b'', ''C'')])
     \<noteq> map_of [(''a'', ''G''), (''b'', ''C'')]"
proof -
  have c: "concat_records [(''a'', ''G''), (''b'', ''C'')] = ''>a\<newline>G>b\<newline>C''"
    by (simp add: concat_records_def)
  have s: "splitlines ''>a\<newline>G>b\<newline>C'' = [''>a'', ''G>b'', ''C'']"
    by (simp add: is_linebreak_def)
  have da: "is_delimiter ''>a''" "header_of ''>a'' = ''a''"
    by (simp_all add: is_delimiter_def header_of_def strip_def isspace_def startswith_gt_def)
  have nd: "\<not> is_delimiter ''G>b''" "\<not> is_delimiter ''C''"
    by (simp_all add: is_delimiter_def strip_def isspace_def startswith_gt_def)
  have st: "strip ''G>b'' = ''G>b''" "strip ''C'' = ''C''"
    by (simp_all add: strip_def isspace_def)
  have "read_fasta_lines [''>a'', ''G>b'', ''C''] = [''a'' \<mapsto> ''G>bC'']"
    by (simp add: read_fasta_lines_def step_delimiter step_other da nd st finish_def store_def)
  then have r: "read_fasta_string (concat_records [(''a'', ''G''), (''b'', ''C'')])
                  = [''a'' \<mapsto> ''G>bC'']"
    by (simp only: read_fasta_string_def c s)
  have "[''a'' \<mapsto> ''G>bC''] ''b'' = None"
    and "map_of [(''a'', ''G''), (''b'', ''C'')] ''b'' = Some ''C''"
    by simp_all
  then have ne: "[''a'' \<mapsto> ''G>bC''] \<noteq> map_of [(''a'', ''G''), (''b'', ''C'')]"
    by (metis option.distinct(1))
  show ?thesis
    using c r ne by simp
qed

end
